theory Spec2Isabelle
  imports Complex_Main "HOL-Library.Word" "HOL-Library.AList"
begin

section \<open>Bytes, errors and the standard-library codecs\<close>

text \<open>
  The sender (\<^verbatim>\<open>boardcaster.py\<close>) cuts a file into chunks, wraps each chunk in a JSON
  envelope and shows it as a QR code; the receiver (\<^verbatim>\<open>receiver.py\<close>) collects the
  envelopes, writes the restored file, or a draft and a list of missing parts.
  A file is the list of its bytes; a Python \<^verbatim>\<open>bytes\<close> object likewise.
\<close>

type_synonym byte = "8 word"
type_synonym bytes = "byte list"

text \<open>The exceptions that the modelled code paths can raise.\<close>

datatype py_error =
    KeyError
  | TypeError
  | JSONDecodeError
  | UnicodeDecodeError
  | ValueError
  | binascii_Error
  | ZeroDivisionError

subsection \<open>base64\<close>

text \<open>
  \<^verbatim>\<open>base64.b64encode\<close> and \<^verbatim>\<open>base64.b64decode\<close> belong to Python's standard library
  (\<^verbatim>\<open>binascii.b2a_base64\<close>, \<^verbatim>\<open>binascii.a2b_base64\<close> in non-strict mode). The shifts and
  masks of the C code are written as \<open>div\<close> and \<open>mod\<close> on the values of the bytes.
\<close>

definition b64_alphabet :: string where
  "b64_alphabet = ''ABCDEFGHIJKLMNOPQRSTUVWXYZabcdefghijklmnopqrstuvwxyz0123456789+/''"

definition b64_char :: "nat \<Rightarrow> char" where
  "b64_char i = b64_alphabet ! i"

fun index_of :: "'a \<Rightarrow> 'a list \<Rightarrow> nat option" where
  "index_of x [] = None"
| "index_of x (y # ys) = (if x = y then Some 0 else map_option Suc (index_of x ys))"

definition b64_index :: "char \<Rightarrow> nat option" where
  "b64_index c = index_of c b64_alphabet"

fun b64encode :: "bytes \<Rightarrow> string" where
  "b64encode [] = []"
| "b64encode [a] =
     [b64_char (unat a div 4), b64_char ((unat a mod 4) * 16), CHR ''='', CHR ''='']"
| "b64encode [a, b] =
     [b64_char (unat a div 4), b64_char ((unat a mod 4) * 16 + unat b div 16),
      b64_char ((unat b mod 16) * 4), CHR ''='']"
| "b64encode (a # b # c # rest) =
     [b64_char (unat a div 4), b64_char ((unat a mod 4) * 16 + unat b div 16),
      b64_char ((unat b mod 16) * 4 + unat c div 64), b64_char (unat c mod 64)]
     @ b64encode rest"

text \<open>
  The decoding loop of \<^verbatim>\<open>a2b_base64\<close>: \<open>quad_pos\<close> counts the data characters of the
  current group of four, \<open>leftchar\<close> holds the bits not yet written, \<open>pads\<close> the padding
  characters seen since the last data character. Characters outside the alphabet are
  skipped; a padding sequence that completes a group ends the decoding; a group left
  open at the end of the input is an error.
\<close>

fun a2b_base64 :: "nat \<Rightarrow> nat \<Rightarrow> nat \<Rightarrow> bytes \<Rightarrow> string \<Rightarrow> py_error + bytes" where
  "a2b_base64 quad_pos leftchar pads out [] =
     (if quad_pos = 0 then Inr out else Inl binascii_Error)"
| "a2b_base64 quad_pos leftchar pads out (ch # rest) =
     (if ch = CHR ''='' then
        (if 2 \<le> quad_pos \<and> 4 \<le> quad_pos + (pads + 1) then Inr out
         else a2b_base64 quad_pos leftchar (if 2 \<le> quad_pos then pads + 1 else pads) out rest)
      else
        (case b64_index ch of
           None \<Rightarrow> a2b_base64 quad_pos leftchar pads out rest
         | Some this_ch \<Rightarrow>
             (if quad_pos = 0 then a2b_base64 1 this_ch 0 out rest
              else if quad_pos = 1 then
                a2b_base64 2 (this_ch mod 16) 0
                  (out @ [of_nat (leftchar * 4 + this_ch div 16)]) rest
              else if quad_pos = 2 then
                a2b_base64 3 (this_ch mod 4) 0
                  (out @ [of_nat (leftchar * 16 + this_ch div 4)]) rest
              else
                a2b_base64 0 0 0 (out @ [of_nat (leftchar * 64 + this_ch)]) rest)))"

text \<open>
  \<^verbatim>\<open>b64decode\<close> of a \<^verbatim>\<open>str\<close> first encodes it to ASCII, which raises \<^verbatim>\<open>ValueError\<close> on
  a character above 127.
\<close>

definition b64decode :: "string \<Rightarrow> py_error + bytes" where
  "b64decode s =
     (if \<exists>c \<in> set s. 128 \<le> (of_char c :: nat) then Inl ValueError
      else a2b_base64 0 0 0 [] s)"

section \<open>The sender\<close>

definition CHUNK_SIZE_BYTES :: nat where
  "CHUNK_SIZE_BYTES = 2048"

text \<open>
  \<^verbatim>\<open>get_file_chunks\<close>: read \<open>chunk_size\<close> bytes at a time until a read returns nothing.
  The chunk size is a parameter here; the program fixes it to \<^const>\<open>CHUNK_SIZE_BYTES\<close>.
\<close>

function read_chunks :: "nat \<Rightarrow> bytes \<Rightarrow> bytes list" where
  "read_chunks chunk_size f =
     (let chunk = take chunk_size f
      in if chunk = [] then [] else chunk # read_chunks chunk_size (drop chunk_size f))"
  by pat_completeness auto
termination
  by (relation "measure (\<lambda>(chunk_size, f). length f)") auto

definition get_file_chunks :: "bytes \<Rightarrow> bytes list" where
  "get_file_chunks f = read_chunks CHUNK_SIZE_BYTES f"

text \<open>
  \<^verbatim>\<open>math.ceil(file_size / CHUNK_SIZE_BYTES)\<close>. Python divides two integers into the nearest
  double and rounds that up; for a file of fewer than \<open>2^53\<close> bytes the result is the
  exact ceiling of the quotient, which is what is written here.
\<close>

definition ceil_div :: "nat \<Rightarrow> nat \<Rightarrow> nat" where
  "ceil_div file_size chunk_size = (file_size + chunk_size - 1) div chunk_size"

text \<open>
  The JSON object of one QR code, with the keys \<^verbatim>\<open>p\<close> (part number), \<^verbatim>\<open>t\<close> (total parts),
  \<^verbatim>\<open>f\<close> (file name) and \<^verbatim>\<open>d\<close> (base64 data). The sender fills all four; on the
  receiving side a key may be absent, and a lookup of an absent key is a \<^verbatim>\<open>KeyError\<close>.
  Values of another JSON type under these keys are outside this model.
\<close>

record json_dict =
  key_p :: "int option"
  key_t :: "int option"
  key_f :: "string option"
  key_d :: "string option"

text \<open>
  \<^verbatim>\<open>generation_thread\<close>: the payloads put on the image queue, in order (the rendering of
  a payload as a QR image and the final \<^verbatim>\<open>None\<close> sentinel are left out).
  \<open>remediation_parts\<close> is \<^verbatim>\<open>None\<close> or a set; an empty set is falsy in Python, like
  \<^verbatim>\<open>None\<close>. With a chunk size of zero the division raises, the handler of the thread
  catches it and nothing is sent.
\<close>

definition skip_part :: "int set option \<Rightarrow> int \<Rightarrow> bool" where
  "skip_part remediation_parts part_number =
     (case remediation_parts of
        None \<Rightarrow> False
      | Some parts \<Rightarrow> parts \<noteq> {} \<and> part_number \<notin> parts)"

definition generation_thread_sz ::
  "nat \<Rightarrow> bytes \<Rightarrow> string \<Rightarrow> int set option \<Rightarrow> json_dict list" where
  "generation_thread_sz chunk_size file file_name remediation_parts =
     (if chunk_size = 0 then []
      else
        let total_parts = ceil_div (length file) chunk_size;
            numbered = zip [1..int (length (read_chunks chunk_size file))]
                           (read_chunks chunk_size file)
        in map (\<lambda>(part_number, chunk_data).
                  \<lparr>key_p = Some part_number, key_t = Some (int total_parts),
                   key_f = Some file_name, key_d = Some (b64encode chunk_data)\<rparr>)
               (filter (\<lambda>(part_number, chunk_data). \<not> skip_part remediation_parts part_number)
                  numbered))"

definition generation_thread :: "bytes \<Rightarrow> string \<Rightarrow> int set option \<Rightarrow> json_dict list" where
  "generation_thread file file_name remediation_parts =
     generation_thread_sz CHUNK_SIZE_BYTES file file_name remediation_parts"

text \<open>
  \<^verbatim>\<open>main\<close> of the sender: with \<^verbatim>\<open>--remediate\<close> the \<^verbatim>\<open>missing\<close> list of the manifest
  becomes the set of parts to send, and an empty set ends the program before anything
  is sent.
\<close>

definition sender_main_sz :: "nat \<Rightarrow> bytes \<Rightarrow> string \<Rightarrow> int list option \<Rightarrow> json_dict list" where
  "sender_main_sz chunk_size file file_name remediate =
     (case remediate of
        None \<Rightarrow> generation_thread_sz chunk_size file file_name None
      | Some missing \<Rightarrow>
          (let remediation_parts = set missing
           in if remediation_parts = {} then []
              else generation_thread_sz chunk_size file file_name (Some remediation_parts)))"

definition sender_main :: "bytes \<Rightarrow> string \<Rightarrow> int list option \<Rightarrow> json_dict list" where
  "sender_main file file_name remediate =
     sender_main_sz CHUNK_SIZE_BYTES file file_name remediate"

section \<open>The receiver\<close>

text \<open>
  The dictionary \<^verbatim>\<open>chunks\<close> from part number to base64 text, in insertion order;
  \<^const>\<open>AList.update\<close> is Python's item assignment. The files on the receiver's disk
  are given by name.
\<close>

type_synonym chunk_dict = "(int \<times> string) list"

type_synonym files = "string \<Rightarrow> bytes option"

text \<open>
  The loop that reads an existing draft (lines 245--250 of \<^verbatim>\<open>receiver.py\<close>): one read of
  \<open>chunk_size\<close> bytes for each part number, stopping at the first empty read.
\<close>

fun load_draft :: "nat \<Rightarrow> bytes \<Rightarrow> int list \<Rightarrow> chunk_dict \<Rightarrow> chunk_dict" where
  "load_draft chunk_size f_in [] chunks = chunks"
| "load_draft chunk_size f_in (i # rest) chunks =
     (let chunk = take chunk_size f_in
      in if chunk = [] then chunks
         else load_draft chunk_size (drop chunk_size f_in) rest
                (if chunk \<noteq> replicate chunk_size 0 \<and> chunk \<noteq> replicate (length chunk) 0
                 then (if i \<notin> fst ` set chunks
                       then AList.update i (b64encode chunk) chunks else chunks)
                 else chunks))"

text \<open>
  Writing the restored file (lines 277--279): the bytes written, and the exception that
  stopped the writing, if any.
\<close>

fun write_restored :: "chunk_dict \<Rightarrow> int list \<Rightarrow> bytes \<Rightarrow> bytes \<times> py_error option" where
  "write_restored chunks [] f_out = (f_out, None)"
| "write_restored chunks (i # rest) f_out =
     (case map_of chunks i of
        None \<Rightarrow> (f_out, Some KeyError)
      | Some base64_data \<Rightarrow>
          (case b64decode base64_data of
             Inl e \<Rightarrow> (f_out, Some e)
           | Inr binary_chunk \<Rightarrow> write_restored chunks rest (f_out @ binary_chunk)))"

text \<open>
  \<^verbatim>\<open>save_draft_and_exit\<close>. The manifest is the content of \<^verbatim>\<open>missing_parts.json\<close>; the
  draft is the name of the file and what was written to it (lines 83--93). Failures of
  the file system itself are not modelled.
\<close>

record manifest =
  filename :: string
  manifest_total_parts :: int
  missing :: "int list"

fun write_draft ::
  "nat \<Rightarrow> chunk_dict \<Rightarrow> int \<Rightarrow> int list \<Rightarrow> bytes \<Rightarrow> bytes \<times> py_error option" where
  "write_draft chunk_size chunks tp [] f_out = (f_out, None)"
| "write_draft chunk_size chunks tp (i # rest) f_out =
     (case map_of chunks i of
        Some base64_data \<Rightarrow>
          (case b64decode base64_data of
             Inl e \<Rightarrow> (f_out, Some e)
           | Inr binary_chunk \<Rightarrow> write_draft chunk_size chunks tp rest (f_out @ binary_chunk))
      | None \<Rightarrow>
          (if i \<noteq> tp then write_draft chunk_size chunks tp rest (f_out @ replicate chunk_size 0)
           else write_draft chunk_size chunks tp rest f_out))"

datatype saved =
    NoPartsReceived
  | AllPartsFound
  | Draft manifest string "bytes \<times> py_error option"

definition missing_parts :: "chunk_dict \<Rightarrow> int \<Rightarrow> int list" where
  "missing_parts chunks tp = sorted_list_of_set ({1..tp} - fst ` set chunks)"

definition save_draft_and_exit ::
  "nat \<Rightarrow> chunk_dict \<Rightarrow> int option \<Rightarrow> string option \<Rightarrow> saved" where
  "save_draft_and_exit chunk_size chunks total_parts output_filename =
     (case total_parts of
        None \<Rightarrow> NoPartsReceived
      | Some tp \<Rightarrow>
     (case output_filename of
        None \<Rightarrow> NoPartsReceived
      | Some fn \<Rightarrow>
          if missing_parts chunks tp = [] then AllPartsFound
          else Draft \<lparr>filename = fn, manifest_total_parts = tp,
                       missing = missing_parts chunks tp\<rparr>
                 (''DRAFT_'' @ fn)
                 (write_draft chunk_size chunks tp [1..tp] [])))"

definition SCAN_TIMEOUT_SECONDS :: real where
  "SCAN_TIMEOUT_SECONDS = 5"

text \<open>
  The variables of \<^verbatim>\<open>main_scanner\<close>. Times are the readings of \<^verbatim>\<open>time.time()\<close>.
\<close>

record session =
  chunks :: chunk_dict
  total_parts :: "int option"
  output_filename :: "string option"
  last_part_found_time :: real

text \<open>
  The body of the inner \<^verbatim>\<open>try\<close> for a parsed JSON object, together with its handler:
  a \<^verbatim>\<open>KeyError\<close> leaves the variables as they are at the point of the raise.
  \<open>now\<close> is the reading of the clock at line 256.
\<close>

definition handle_payload ::
  "nat \<Rightarrow> files \<Rightarrow> real \<Rightarrow> session \<Rightarrow> json_dict \<Rightarrow> session" where
  "handle_payload chunk_size fs now st payload =
     (case key_p payload of
        None \<Rightarrow> st
      | Some part_num \<Rightarrow>
     (case key_d payload of
        None \<Rightarrow> st
      | Some base64_data \<Rightarrow>
          if part_num \<in> fst ` set (chunks st) then st
          else
            (case total_parts st of
               Some _ \<Rightarrow>
                 st\<lparr>chunks := AList.update part_num base64_data (chunks st),
                    last_part_found_time := now\<rparr>
             | None \<Rightarrow>
            (case key_t payload of
               None \<Rightarrow> st
             | Some tp \<Rightarrow>
            (case key_f payload of
               None \<Rightarrow> st\<lparr>total_parts := Some tp\<rparr>
             | Some fn \<Rightarrow>
                 (let loaded =
                        (case fs (''DRAFT_'' @ fn) of
                           None \<Rightarrow> chunks st
                         | Some f_in \<Rightarrow> load_draft chunk_size f_in [1..tp] (chunks st))
                  in st\<lparr>chunks := AList.update part_num base64_data loaded,
                        total_parts := Some tp,
                        output_filename := Some fn,
                        last_part_found_time := now\<rparr>))))))"

text \<open>
  What the result queue delivers, after \<^verbatim>\<open>.decode('utf-8')\<close> and \<^verbatim>\<open>json.loads\<close>: bytes
  that are not UTF-8, text that is not JSON, a JSON value that is not an object, or an
  object. The first is raised outside the inner \<^verbatim>\<open>try\<close> and is caught nowhere. A text
  on which \<^verbatim>\<open>json.loads\<close> raises another exception than \<^verbatim>\<open>JSONDecodeError\<close> (a
  \<^verbatim>\<open>RecursionError\<close> on deep nesting) is outside this model.
\<close>

datatype qr_data = NotUtf8 | NotJson | NotDict | Dict json_dict

fun process_result ::
  "nat \<Rightarrow> files \<Rightarrow> real \<Rightarrow> session \<Rightarrow> qr_data \<Rightarrow> py_error + session" where
  "process_result chunk_size fs now st NotUtf8 = Inl UnicodeDecodeError"
| "process_result chunk_size fs now st NotJson = Inr st"
| "process_result chunk_size fs now st NotDict = Inr st"
| "process_result chunk_size fs now st (Dict payload) =
     Inr (handle_payload chunk_size fs now st payload)"

text \<open>The timeout test at the head of the loop (lines 212--217).\<close>

definition scan_timed_out :: "session \<Rightarrow> real \<Rightarrow> bool" where
  "scan_timed_out st now =
     (case total_parts st of
        None \<Rightarrow> False
      | Some tp \<Rightarrow>
          int (length (chunks st)) < tp \<and>
          now - last_part_found_time st > SCAN_TIMEOUT_SECONDS)"

text \<open>The completion test (line 270).\<close>

definition all_parts_found :: "session \<Rightarrow> bool" where
  "all_parts_found st =
     (case total_parts st of
        None \<Rightarrow> False
      | Some tp \<Rightarrow> int (length (chunks st)) = tp)"

text \<open>
  The main loop. One event is one pass: the clock reading of the timeout test, then
  either an empty queue or an item (with the clock reading at line 256); or Ctrl+C.
  The loop ends with the restored file, with a failed write of it, with the result of
  \<^verbatim>\<open>save_draft_and_exit\<close>, or with an exception that nothing catches. A list of events
  that ends before the loop does leaves it running.
\<close>

datatype event = QueueEmpty real | QueueItem real qr_data real | Interrupt

datatype outcome =
    Restored string bytes
  | WriteFailed string bytes py_error
  | Saved saved
  | Crashed py_error

datatype run = Running session | Finished outcome

definition restored_filename :: "string option \<Rightarrow> string" where
  "restored_filename name =
     ''RESTORED_'' @ (case name of None \<Rightarrow> ''None'' | Some fn \<Rightarrow> fn)"

definition reassemble :: "session \<Rightarrow> outcome" where
  "reassemble st =
     (case write_restored (chunks st) [1..the (total_parts st)] [] of
        (f_out, None) \<Rightarrow> Restored (restored_filename (output_filename st)) f_out
      | (f_out, Some e) \<Rightarrow> WriteFailed (restored_filename (output_filename st)) f_out e)"

definition save :: "nat \<Rightarrow> session \<Rightarrow> run" where
  "save chunk_size st =
     Finished (Saved (save_draft_and_exit chunk_size (chunks st) (total_parts st)
                        (output_filename st)))"

fun main_loop :: "nat \<Rightarrow> files \<Rightarrow> session \<Rightarrow> event list \<Rightarrow> run" where
  "main_loop chunk_size fs st [] = Running st"
| "main_loop chunk_size fs st (Interrupt # rest) = save chunk_size st"
| "main_loop chunk_size fs st (QueueEmpty now # rest) =
     (if scan_timed_out st now then save chunk_size st
      else main_loop chunk_size fs st rest)"
| "main_loop chunk_size fs st (QueueItem now item now' # rest) =
     (if scan_timed_out st now then save chunk_size st
      else
        (case process_result chunk_size fs now' st item of
           Inl e \<Rightarrow> Finished (Crashed e)
         | Inr st' \<Rightarrow>
             if all_parts_found st' then Finished (reassemble st')
             else main_loop chunk_size fs st' rest))"

definition main_scanner_sz :: "nat \<Rightarrow> files \<Rightarrow> real \<Rightarrow> event list \<Rightarrow> run" where
  "main_scanner_sz chunk_size fs start events =
     main_loop chunk_size fs
       \<lparr>chunks = [], total_parts = None, output_filename = None,
        last_part_found_time = start\<rparr> events"

definition main_scanner :: "files \<Rightarrow> real \<Rightarrow> event list \<Rightarrow> run" where
  "main_scanner fs start events = main_scanner_sz CHUNK_SIZE_BYTES fs start events"

subsection \<open>Streams of results\<close>

text \<open>
  The passes of the loop in which the queue delivers the given JSON objects, one per
  pass, each with the clock readings of its pass (timeout test, line 256).
\<close>

definition deliver :: "(real \<times> real) list \<Rightarrow> json_dict list \<Rightarrow> event list" where
  "deliver ticks payloads =
     map (\<lambda>((now, now'), payload). QueueItem now (Dict payload) now') (zip ticks payloads)"

text \<open>
  No timeout test comes later than \<^const>\<open>SCAN_TIMEOUT_SECONDS\<close> after the clock reading
  of the pass before it (or after \<open>prev\<close>, for the first pass).
\<close>

fun on_time :: "real \<Rightarrow> (real \<times> real) list \<Rightarrow> bool" where
  "on_time prev [] = True"
| "on_time prev ((now, now') # ticks) =
     (now - prev \<le> SCAN_TIMEOUT_SECONDS \<and> on_time now' ticks)"

text \<open>A JSON object whose part number is already a key of \<^verbatim>\<open>chunks\<close>.\<close>

definition already_seen :: "session \<Rightarrow> json_dict \<Rightarrow> bool" where
  "already_seen st payload =
     (case key_p payload of
        None \<Rightarrow> False
      | Some part_num \<Rightarrow> part_num \<in> fst ` set (chunks st))"

text \<open>
  A complete set of envelopes of one session: every envelope carries the same total
  \<open>tp\<close> and file name \<open>fn\<close>, and the part numbers are \<open>1, \<dots>, tp\<close>, each once.
\<close>

definition envelope_of :: "int \<Rightarrow> string \<Rightarrow> json_dict \<Rightarrow> bool" where
  "envelope_of tp fn payload =
     (key_t payload = Some tp \<and> key_f payload = Some fn \<and>
      key_p payload \<noteq> None \<and> key_d payload \<noteq> None)"

definition part_of :: "json_dict \<Rightarrow> int \<times> string" where
  "part_of payload = (the (key_p payload), the (key_d payload))"






definition new_session :: "real \<Rightarrow> session" where
  "new_session start =
     \<lparr>chunks = [], total_parts = None, output_filename = None, last_part_found_time = start\<rparr>"



section \<open>Properties of the codecs\<close>

lemma index_of_nth: "distinct xs \<Longrightarrow> i < length xs \<Longrightarrow> index_of (xs ! i) xs = Some i"
proof (induction xs arbitrary: i)
  case Nil then show ?case by simp
next
  case (Cons y ys)
  show ?case
  proof (cases i)
    case 0 then show ?thesis by simp
  next
    case (Suc j)
    with Cons.prems have j: "j < length ys" "distinct ys" "ys ! j \<noteq> y" by auto
    with Cons.IH[of j] Suc show ?thesis by simp
  qed
qed

lemma b64_alphabet_length: "length b64_alphabet = 64"
  by (simp add: b64_alphabet_def)

lemma b64_alphabet_distinct: "distinct b64_alphabet"
  by (simp add: b64_alphabet_def)

lemma b64_index_char: "i < 64 \<Longrightarrow> b64_index (b64_char i) = Some i"
  by (simp add: b64_index_def b64_char_def index_of_nth b64_alphabet_distinct b64_alphabet_length)

lemma b64_char_in_alphabet: "i < 64 \<Longrightarrow> b64_char i \<in> set b64_alphabet"
  by (simp add: b64_char_def b64_alphabet_length)

lemma b64_char_not_pad: "i < 64 \<Longrightarrow> b64_char i \<noteq> CHR ''=''"
proof -
  assume "i < 64"
  then have "b64_char i \<in> set b64_alphabet" by (rule b64_char_in_alphabet)
  moreover have "CHR ''='' \<notin> set b64_alphabet"
    by (simp add: b64_alphabet_def)
  ultimately show ?thesis by auto
qed

lemma b64_alphabet_ascii: "\<forall>c \<in> set b64_alphabet. (of_char c :: nat) < 128"
  by (simp add: b64_alphabet_def)

lemma b64_char_ascii: "i < 64 \<Longrightarrow> (of_char (b64_char i) :: nat) < 128"
  using b64_char_in_alphabet b64_alphabet_ascii by blast

lemma unat_byte_lt: "unat (a :: byte) < 256"
  using unsigned_less[of a, where ?'a = nat] by simp

lemma step_data:
  assumes "v < 64"
  shows "a2b_base64 q l p out (b64_char v # rest) =
     (if q = 0 then a2b_base64 1 v 0 out rest
      else if q = 1 then a2b_base64 2 (v mod 16) 0 (out @ [of_nat (l * 4 + v div 16)]) rest
      else if q = 2 then a2b_base64 3 (v mod 4) 0 (out @ [of_nat (l * 16 + v div 4)]) rest
      else a2b_base64 0 0 0 (out @ [of_nat (l * 64 + v)]) rest)"
  using assms by (simp add: b64_index_char b64_char_not_pad)

lemma step_pad:
  "a2b_base64 q l p out (CHR ''='' # rest) =
     (if 2 \<le> q \<and> 4 \<le> q + (p + 1) then Inr out
      else a2b_base64 q l (if 2 \<le> q then p + 1 else p) out rest)"
  by simp

lemmas a2b_steps = step_data step_pad a2b_base64.simps(1)

lemma sextet_bounds:
  fixes a b c :: nat
  assumes "a < 256" "b < 256" "c < 256"
  shows "a div 4 < 64" "a mod 4 * 16 < 64" "a mod 4 * 16 + b div 16 < 64"
    "b mod 16 * 4 < 64" "b mod 16 * 4 + c div 64 < 64" "c mod 64 < 64"
  using assms by auto

lemma divmod_digit:
  fixes x y k :: nat
  assumes "y < k"
  shows "(x * k + y) div k = x" "(x * k + y) mod k = y"
  using assms by simp_all

lemma sextet_join:
  fixes a b c :: nat
  assumes "a < 256" "b < 256" "c < 256"
  shows "a div 4 * 4 + (a mod 4 * 16) div 16 = a"
    "a div 4 * 4 + (a mod 4 * 16 + b div 16) div 16 = a"
    "(a mod 4 * 16 + b div 16) mod 16 * 16 + (b mod 16 * 4) div 4 = b"
    "(a mod 4 * 16 + b div 16) mod 16 * 16 + (b mod 16 * 4 + c div 64) div 4 = b"
    "(b mod 16 * 4 + c div 64) mod 4 * 64 + c mod 64 = c"
proof -
  have b16: "b div 16 < 16" and c64: "c div 64 < 4" using assms by auto
  show "a div 4 * 4 + (a mod 4 * 16) div 16 = a" by simp
  show "a div 4 * 4 + (a mod 4 * 16 + b div 16) div 16 = a"
    by (simp only: divmod_digit[OF b16]) simp
  show "(a mod 4 * 16 + b div 16) mod 16 * 16 + (b mod 16 * 4) div 4 = b"
    by (simp only: divmod_digit[OF b16]) simp
  show "(a mod 4 * 16 + b div 16) mod 16 * 16 + (b mod 16 * 4 + c div 64) div 4 = b"
    by (simp only: divmod_digit[OF b16] divmod_digit[OF c64]) simp
  show "(b mod 16 * 4 + c div 64) mod 4 * 64 + c mod 64 = c"
    by (simp only: divmod_digit[OF c64]) simp
qed

lemma a2b_encode: "a2b_base64 0 l p out (b64encode bs) = Inr (out @ bs)"
proof (induction bs arbitrary: l p out rule: b64encode.induct)
  case 1 show ?case by simp
next
  case (2 a)
  define v0 v1 where "v0 = unat a div 4" and "v1 = unat a mod 4 * 16"
  have a: "unat a < 256" by (rule unat_byte_lt)
  have lt: "v0 < 64" "v1 < 64"
    unfolding v0_def v1_def using sextet_bounds[OF a a a] by simp_all
  have j: "v0 * 4 + v1 div 16 = unat a"
    unfolding v0_def v1_def using sextet_join[OF a a a] by simp
  have "a2b_base64 0 l p out [b64_char v0, b64_char v1, CHR ''='', CHR ''=''] = Inr (out @ [a])"
    using lt j by (simp add: a2b_steps del: a2b_base64.simps)
  then show ?case by (simp add: v0_def v1_def del: a2b_base64.simps)
next
  case (3 a b)
  define v0 v1 v2 where "v0 = unat a div 4" and "v1 = unat a mod 4 * 16 + unat b div 16"
    and "v2 = unat b mod 16 * 4"
  have a: "unat a < 256" and b: "unat b < 256" by (rule unat_byte_lt)+
  have lt: "v0 < 64" "v1 < 64" "v2 < 64"
    unfolding v0_def v1_def v2_def using sextet_bounds[OF a b b] by simp_all
  have j: "v0 * 4 + v1 div 16 = unat a" "v1 mod 16 * 16 + v2 div 4 = unat b"
    unfolding v0_def v1_def v2_def using sextet_join[OF a b b] by simp_all
  have "a2b_base64 0 l p out [b64_char v0, b64_char v1, b64_char v2, CHR ''=''] = Inr (out @ [a, b])"
    using lt j by (simp add: a2b_steps del: a2b_base64.simps)
  then show ?case by (simp add: v0_def v1_def v2_def del: a2b_base64.simps)
next
  case (4 a b c rest)
  define v0 v1 v2 v3 where "v0 = unat a div 4" and "v1 = unat a mod 4 * 16 + unat b div 16"
    and "v2 = unat b mod 16 * 4 + unat c div 64" and "v3 = unat c mod 64"
  have a: "unat a < 256" and b: "unat b < 256" and c: "unat c < 256" by (rule unat_byte_lt)+
  have lt: "v0 < 64" "v1 < 64" "v2 < 64" "v3 < 64"
    unfolding v0_def v1_def v2_def v3_def using sextet_bounds[OF a b c] by simp_all
  have j: "v0 * 4 + v1 div 16 = unat a" "v1 mod 16 * 16 + v2 div 4 = unat b"
    "v2 mod 4 * 64 + v3 = unat c"
    unfolding v0_def v1_def v2_def v3_def using sextet_join[OF a b c] by simp_all
  have "a2b_base64 0 l p out ([b64_char v0, b64_char v1, b64_char v2, b64_char v3] @ b64encode rest)
      = a2b_base64 0 0 0 (out @ [a, b, c]) (b64encode rest)"
    using lt j by (simp add: a2b_steps del: a2b_base64.simps)
  also have "\<dots> = Inr (out @ a # b # c # rest)"
    using "4.IH"[of 0 0 "out @ [a, b, c]"] by simp
  finally show ?case by (simp add: v0_def v1_def v2_def v3_def del: a2b_base64.simps)
qed

lemma b64encode_in_alphabet:
  "c \<in> set (b64encode bs) \<Longrightarrow> c \<in> set b64_alphabet \<or> c = CHR ''=''"
proof (induction bs rule: b64encode.induct)
  case 1 then show ?case by simp
next
  case (2 a)
  have a: "unat a < 256" by (rule unat_byte_lt)
  from 2 sextet_bounds[OF a a a] show ?case
    by (auto simp: b64_char_in_alphabet)
next
  case (3 a b)
  have a: "unat a < 256" and b: "unat b < 256" by (rule unat_byte_lt)+
  from 3 sextet_bounds[OF a b b] show ?case
    by (auto simp: b64_char_in_alphabet)
next
  case (4 a b c rest)
  have a: "unat a < 256" and b: "unat b < 256" and c: "unat c < 256" by (rule unat_byte_lt)+
  from 4 sextet_bounds[OF a b c] show ?case
    by (auto simp: b64_char_in_alphabet)
qed

lemma b64encode_ascii: "c \<in> set (b64encode bs) \<Longrightarrow> (of_char c :: nat) < 128"
  using b64encode_in_alphabet[of c bs] b64_alphabet_ascii by auto

lemma b64decode_b64encode: "b64decode (b64encode bs) = Inr bs"
proof -
  have "\<not> (\<exists>c \<in> set (b64encode bs). 128 \<le> (of_char c :: nat))"
    using b64encode_ascii[of _ bs] by (meson not_le)
  then show ?thesis by (simp add: b64decode_def a2b_encode)
qed

section \<open>Properties of the chunking\<close>

declare read_chunks.simps [simp del]

lemma read_chunks_Nil: "read_chunks cs [] = []"
  by (simp add: read_chunks.simps)

lemma read_chunks_Cons:
  "0 < cs \<Longrightarrow> f \<noteq> [] \<Longrightarrow> read_chunks cs f = take cs f # read_chunks cs (drop cs f)"
  by (subst read_chunks.simps) (simp add: Let_def)

lemma concat_read_chunks: "0 < cs \<Longrightarrow> concat (read_chunks cs f) = f"
proof (induction cs f rule: read_chunks.induct)
  case (1 cs f)
  show ?case
  proof (cases "f = []")
    case True then show ?thesis by (simp add: read_chunks_Nil)
  next
    case False
    with "1.prems" have "take cs f \<noteq> []" by simp
    with "1.IH" "1.prems" have "concat (read_chunks cs (drop cs f)) = drop cs f" by simp
    with False "1.prems" show ?thesis by (simp add: read_chunks_Cons)
  qed
qed

lemma div_digit:
  fixes x y k :: nat
  assumes "y < k"
  shows "(x * k + y) div k = x"
  using assms by simp

lemma ceil_div_alt:
  assumes "0 < cs"
  shows "ceil_div n cs = (if n mod cs = 0 then n div cs else Suc (n div cs))"
proof -
  define q r where "q = n div cs" and "r = n mod cs"
  have n: "n = q * cs + r" and r: "r < cs"
    using assms by (simp_all add: q_def r_def)
  show ?thesis
  proof (cases "r = 0")
    case True
    have "n + cs - 1 = q * cs + (cs - 1)" using assms n True by simp
    then have "(n + cs - 1) div cs = q" using div_digit[of "cs - 1" cs q] assms by simp
    then show ?thesis using True by (simp add: ceil_div_def q_def r_def)
  next
    case False
    have "n + cs - 1 = Suc q * cs + (r - 1)" using n False by simp
    then have "(n + cs - 1) div cs = Suc q" using div_digit[of "r - 1" cs "Suc q"] r by simp
    then show ?thesis using False by (simp add: ceil_div_def q_def r_def)
  qed
qed

lemma ceil_div_bounds:
  assumes "0 < cs"
  shows "n \<le> ceil_div n cs * cs" and "0 < n \<Longrightarrow> (ceil_div n cs - 1) * cs < n"
proof -
  define q r where "q = n div cs" and "r = n mod cs"
  have n: "n = q * cs + r" and r: "r < cs"
    using assms by (simp_all add: q_def r_def)
  have k: "ceil_div n cs = (if r = 0 then q else Suc q)"
    using ceil_div_alt[OF assms, of n] by (simp add: q_def r_def)
  show "n \<le> ceil_div n cs * cs" using n r k by (cases "r = 0") simp_all
  show "(ceil_div n cs - 1) * cs < n" if "0 < n"
  proof (cases "r = 0")
    case True
    with n that have q: "0 < q" by (cases q) simp_all
    then show ?thesis using True k n assms by simp
  next
    case False then show ?thesis using k n by simp
  qed
qed

lemma ceil_div_real: 
  assumes "0 < cs"
  shows "int (ceil_div n cs) = \<lceil>real n / real cs\<rceil>"
proof (cases "n = 0")
  case True then show ?thesis using assms by (simp add: ceil_div_def)
next
  case False
  then have pos: "0 < n" by simp
  have up: "real n \<le> real (ceil_div n cs) * real cs"
    using ceil_div_bounds(1)[OF assms, of n] by (metis of_nat_le_iff of_nat_mult)
  have lo: "real (ceil_div n cs - 1) * real cs < real n"
    using ceil_div_bounds(2)[OF assms pos] by (metis of_nat_less_iff of_nat_mult)
  have k1: "1 \<le> ceil_div n cs" using ceil_div_bounds(1)[OF assms, of n] pos by (cases "ceil_div n cs") simp_all
  have c: "0 < real cs" using assms by simp
  have "real n / real cs \<le> real (ceil_div n cs)" using up c by (simp add: pos_divide_le_eq)
  moreover have "real (ceil_div n cs) - 1 < real n / real cs"
    using lo c k1 by (simp add: pos_less_divide_eq of_nat_diff)
  ultimately have "\<lceil>real n / real cs\<rceil> = int (ceil_div n cs)"
    by (intro ceiling_unique) simp_all
  then show ?thesis by simp
qed

lemma length_read_chunks: "0 < cs \<Longrightarrow> length (read_chunks cs f) = ceil_div (length f) cs"
proof (induction cs f rule: read_chunks.induct)
  case (1 cs f)
  show ?case
  proof (cases "f = []")
    case True then show ?thesis using "1.prems" by (simp add: read_chunks_Nil ceil_div_def)
  next
    case False
    with "1.prems" have "take cs f \<noteq> []" by simp
    with "1.IH" "1.prems" have IH: "length (read_chunks cs (drop cs f)) = ceil_div (length f - cs) cs" by simp
    have step: "ceil_div (length f) cs = Suc (ceil_div (length f - cs) cs)"
    proof (cases "cs \<le> length f")
      case True
      then obtain m where m: "length f = m + cs"
        by (metis le_add_diff_inverse2)
      show ?thesis using "1.prems" by (simp add: m ceil_div_alt)
    next
      case c: False
      then have "length f mod cs = length f" "length f div cs = 0" by simp_all
      then have "ceil_div (length f) cs = Suc 0"
        using False "1.prems" by (simp add: ceil_div_alt)
      moreover have "ceil_div (length f - cs) cs = 0"
        using c "1.prems" by (simp add: ceil_div_def)
      ultimately show ?thesis by simp
    qed
    with False "1.prems" IH show ?thesis by (simp add: read_chunks_Cons)
  qed
qed

lemma nth_read_chunks:
  "0 < cs \<Longrightarrow> i < length (read_chunks cs f) \<Longrightarrow> read_chunks cs f ! i = take cs (drop (i * cs) f)"
proof (induction cs f arbitrary: i rule: read_chunks.induct)
  case (1 cs f)
  show ?case
  proof (cases "f = []")
    case True then show ?thesis using "1.prems" by (simp add: read_chunks_Nil)
  next
    case False
    with "1.prems" have ne: "take cs f \<noteq> []" by simp
    show ?thesis
    proof (cases i)
      case 0 then show ?thesis using False "1.prems" by (simp add: read_chunks_Cons)
    next
      case (Suc j)
      with "1.prems" False have "j < length (read_chunks cs (drop cs f))" by (simp add: read_chunks_Cons)
      with "1.IH"[OF refl ne "1.prems"(1)] have "read_chunks cs (drop cs f) ! j = take cs (drop (j * cs) (drop cs f))" by simp
      then show ?thesis using Suc False "1.prems" by (simp add: read_chunks_Cons add.commute)
    qed
  qed
qed

lemma chunk_length:
  assumes "0 < cs" "i < ceil_div n cs"
  shows "min cs (n - i * cs) = (if Suc i < ceil_div n cs then cs else if n mod cs = 0 then cs else n mod cs)"
proof -
  define q r where "q = n div cs" and "r = n mod cs"
  have n: "n = q * cs + r" and r: "r < cs"
    using assms by (simp_all add: q_def r_def)
  have k: "ceil_div n cs = (if r = 0 then q else Suc q)"
    using ceil_div_alt[OF assms(1), of n] by (simp add: q_def r_def)
  show ?thesis
  proof (cases "Suc i < ceil_div n cs")
    case True
    then have "Suc i \<le> q" using k by (simp split: if_splits)
    then have "Suc i * cs \<le> q * cs" by (rule mult_le_mono1)
    then have "cs \<le> n - i * cs" using n by simp
    then show ?thesis using True by simp
  next
    case False
    with assms(2) have i: "Suc i = ceil_div n cs" by simp
    show ?thesis
    proof (cases "r = 0")
      case True
      with i k have "q = Suc i" by simp
      then have "n - i * cs = cs" using n True by simp
      then show ?thesis using False True by (simp add: r_def)
    next
      case r0: False
      with i k have "q = i" by simp
      then have "n - i * cs = r" using n by simp
      then show ?thesis using False r0 r by (simp add: r_def)
    qed
  qed
qed

lemma skip_part_None: "skip_part None part_number = False"
  by (simp add: skip_part_def)

lemma generation_thread_sz_all:
  assumes "0 < cs"
  shows "generation_thread_sz cs file name None =
    map (\<lambda>(part_number, chunk_data).
           \<lparr>key_p = Some part_number, key_t = Some (int (ceil_div (length file) cs)),
            key_f = Some name, key_d = Some (b64encode chunk_data)\<rparr>)
        (zip [1..int (length (read_chunks cs file))] (read_chunks cs file))"
proof -
  have keep: "filter (\<lambda>(part_number, chunk_data). \<not> skip_part None part_number) xs = xs"
    for xs :: "(int \<times> bytes) list"
    by (rule filter_True) (simp add: skip_part_None split_def)
  show ?thesis
    unfolding generation_thread_sz_def Let_def keep using assms by simp
qed

lemma length_generation_thread_sz:
  assumes "0 < cs"
  shows "length (generation_thread_sz cs file name None) = ceil_div (length file) cs"
  using assms by (simp add: generation_thread_sz_all length_read_chunks)

lemma nth_generation_thread_sz:
  assumes "0 < cs" "i < ceil_div (length file) cs"
  shows "generation_thread_sz cs file name None ! i =
    \<lparr>key_p = Some (int i + 1), key_t = Some (int (ceil_div (length file) cs)),
     key_f = Some name, key_d = Some (b64encode (read_chunks cs file ! i))\<rparr>"
  using assms by (simp add: generation_thread_sz_all length_read_chunks)

lemma length_nth_read_chunks:
  assumes "0 < cs" "i < ceil_div (length file) cs"
  shows "length (read_chunks cs file ! i) =
    (if Suc i < ceil_div (length file) cs then cs
     else if length file mod cs = 0 then cs else length file mod cs)"
proof -
  have "read_chunks cs file ! i = take cs (drop (i * cs) file)"
    using assms by (simp add: nth_read_chunks length_read_chunks)
  then have "length (read_chunks cs file ! i) = min cs (length file - i * cs)"
    by (simp add: min.commute)
  then show ?thesis using chunk_length[OF assms] by simp
qed

section \<open>Properties of the receiver\<close>

lemma handle_payload_seen:
  assumes "already_seen st payload"
  shows "handle_payload cs fs now st payload = st"
  using assms by (auto simp: already_seen_def handle_payload_def split: option.splits)

lemma deliver_Nil: "deliver [] payloads = []" "deliver ticks [] = []"
  by (simp_all add: deliver_def)

lemma deliver_Cons:
  "deliver ((now, now') # ticks) (payload # payloads) =
     QueueItem now (Dict payload) now' # deliver ticks payloads"
  by (simp add: deliver_def)

lemma main_loop_seen:
  assumes "length ticks = length payloads" "list_all (already_seen st) payloads"
    "\<not> all_parts_found st"
  shows "main_loop cs fs st (deliver ticks payloads @ rest) =
    (if \<exists>(now, now') \<in> set ticks. scan_timed_out st now then save cs st
     else main_loop cs fs st rest)"
  using assms
proof (induction ticks payloads rule: list_induct2)
  case Nil
  then show ?case by (simp add: deliver_Nil)
next
  case (Cons tm ticks payload payloads)
  obtain now now' where tm: "tm = (now, now')" by (cases tm)
  from Cons.prems have seen: "already_seen st payload" and rest: "list_all (already_seen st) payloads"
    by simp_all
  show ?case
    using Cons.IH[OF rest Cons.prems(2)] Cons.prems(2)
    by (simp add: tm deliver_Cons handle_payload_seen[OF seen])
qed

lemma generation_thread_sz_selected:
  assumes "0 < cs" "S \<noteq> {}"
  shows "generation_thread_sz cs file name (Some S) =
    filter (\<lambda>payload. \<exists>part_number \<in> S. key_p payload = Some part_number)
      (generation_thread_sz cs file name None)"
proof -
  have sel: "(\<lambda>(part_number, chunk_data). \<not> skip_part (Some S) part_number)
      = (\<lambda>(part_number, chunk_data :: bytes). part_number \<in> S)"
    using assms(2) by (simp add: skip_part_def fun_eq_iff)
  show ?thesis
    unfolding generation_thread_sz_all[OF assms(1)]
    unfolding generation_thread_sz_def Let_def sel
    using assms(1) by (simp add: filter_map comp_def split_def)
qed

lemma map_Some_fst_zip:
  "length xs = length ys \<Longrightarrow> map (\<lambda>x. Some (fst x)) (zip xs ys) = map Some xs"
  by (induction xs ys rule: list_induct2) simp_all

lemma key_p_generation_thread_sz:
  assumes "0 < cs"
  shows "map key_p (generation_thread_sz cs file name None) =
    map Some [1..int (ceil_div (length file) cs)]"
proof -
  have "map key_p (generation_thread_sz cs file name None) =
      map (\<lambda>x. Some (fst x)) (zip [1..int (length (read_chunks cs file))] (read_chunks cs file))"
    by (simp add: generation_thread_sz_all[OF assms] comp_def split_def)
  also have "\<dots> = map Some [1..int (length (read_chunks cs file))]"
    by (rule map_Some_fst_zip) simp
  finally show ?thesis by (simp only: length_read_chunks[OF assms])
qed

lemma set_missing_parts: "set (missing_parts ch tp) = {1..tp} - fst ` set ch"
  by (simp add: missing_parts_def)

lemma update_new: "k \<notin> fst ` set al \<Longrightarrow> AList.update k v al = al @ [(k, v)]"
  by (induction al) auto

lemma handle_payload_new:
  assumes "total_parts st = Some tp" "key_p payload = Some part_num" "key_d payload = Some base64_data"
    "part_num \<notin> fst ` set (chunks st)"
  shows "handle_payload cs fs now st payload =
    st\<lparr>chunks := chunks st @ [(part_num, base64_data)], last_part_found_time := now\<rparr>"
  using assms by (simp add: handle_payload_def update_new)

lemma handle_payload_first:
  assumes "envelope_of tp fn payload" "fs (''DRAFT_'' @ fn) = None"
  shows "handle_payload cs fs now
      \<lparr>chunks = [], total_parts = None, output_filename = None, last_part_found_time = start\<rparr> payload =
    \<lparr>chunks = [part_of payload], total_parts = Some tp, output_filename = Some fn,
     last_part_found_time = now\<rparr>"
  using assms by (auto simp: handle_payload_def envelope_of_def part_of_def)

lemma not_timed_out: "now - last_part_found_time st \<le> SCAN_TIMEOUT_SECONDS \<Longrightarrow> \<not> scan_timed_out st now"
  by (simp add: scan_timed_out_def split: option.splits)

lemma main_loop_collect:
  assumes "length ticks = length payloads"
    and "total_parts st = Some tp"
    and "list_all (\<lambda>payload. key_p payload \<noteq> None \<and> key_d payload \<noteq> None) payloads"
    and "distinct (map (fst \<circ> part_of) payloads)"
    and "set (map (fst \<circ> part_of) payloads) \<inter> fst ` set (chunks st) = {}"
    and "on_time (last_part_found_time st) ticks"
    and "int (length (chunks st)) + int (length payloads) \<le> tp"
  shows "main_loop cs fs st (deliver ticks payloads @ rest) =
    (if payloads \<noteq> [] \<and> int (length (chunks st)) + int (length payloads) = tp
     then Finished (reassemble
        (st\<lparr>chunks := chunks st @ map part_of payloads,
            last_part_found_time := snd (last ticks)\<rparr>))
     else main_loop cs fs
        (st\<lparr>chunks := chunks st @ map part_of payloads,
            last_part_found_time := (if ticks = [] then last_part_found_time st else snd (last ticks))\<rparr>)
        rest)"
  using assms
proof (induction ticks payloads arbitrary: st rule: list_induct2)
  case Nil
  then show ?case by (simp add: deliver_Nil)
next
  case (Cons tick ticks payload payloads)
  obtain now now' where tick: "tick = (now, now')" by (cases tick)
  from Cons.prems obtain part_num base64_data where
    p: "key_p payload = Some part_num" and d: "key_d payload = Some base64_data"
    by auto
  have po: "part_of payload = (part_num, base64_data)" by (simp add: part_of_def p d)
  from Cons.prems po have new: "part_num \<notin> fst ` set (chunks st)" by auto
  define st1 where "st1 = st\<lparr>chunks := chunks st @ [(part_num, base64_data)],
    last_part_found_time := now'\<rparr>"
  have hp: "handle_payload cs fs now' st payload = st1"
    unfolding st1_def using Cons.prems(1) p d new by (rule handle_payload_new)
  have nto: "\<not> scan_timed_out st now"
    using Cons.prems(5) by (simp add: tick not_timed_out)
  have found: "all_parts_found st1 \<longleftrightarrow> int (length (chunks st)) + 1 = tp"
    using Cons.prems(1) by (auto simp: all_parts_found_def st1_def)
  have step: "main_loop cs fs st (deliver (tick # ticks) (payload # payloads) @ rest) =
      (if int (length (chunks st)) + 1 = tp then Finished (reassemble st1)
       else main_loop cs fs st1 (deliver ticks payloads @ rest))"
    using nto hp found by (simp add: tick deliver_Cons)
  show ?case
  proof (cases "payloads = []")
    case True
    with Cons.hyps have "ticks = []" by simp
    with True step show ?thesis by (simp add: deliver_Nil st1_def po tick)
  next
    case False
    with Cons.hyps have tne: "ticks \<noteq> []" by auto
    from False Cons.prems(6) have lt: "int (length (chunks st)) + 1 \<noteq> tp"
      by (cases payloads) auto
    have IH: "main_loop cs fs st1 (deliver ticks payloads @ rest) =
      (if payloads \<noteq> [] \<and> int (length (chunks st1)) + int (length payloads) = tp
       then Finished (reassemble
          (st1\<lparr>chunks := chunks st1 @ map part_of payloads,
              last_part_found_time := snd (last ticks)\<rparr>))
       else main_loop cs fs
          (st1\<lparr>chunks := chunks st1 @ map part_of payloads,
              last_part_found_time := (if ticks = [] then last_part_found_time st1 else snd (last ticks))\<rparr>)
          rest)"
    proof (rule Cons.IH)
      show "total_parts st1 = Some tp" using Cons.prems(1) by (simp add: st1_def)
      show "list_all (\<lambda>payload. key_p payload \<noteq> None \<and> key_d payload \<noteq> None) payloads"
        using Cons.prems(2) by simp
      show "distinct (map (fst \<circ> part_of) payloads)" using Cons.prems(3) by (simp add: comp_def)
      show "set (map (fst \<circ> part_of) payloads) \<inter> fst ` set (chunks st1) = {}"
        using Cons.prems(3,4) po by (auto simp: st1_def comp_def)
      show "on_time (last_part_found_time st1) ticks"
        using Cons.prems(5) by (simp add: tick st1_def)
      show "int (length (chunks st1)) + int (length payloads) \<le> tp"
        using Cons.prems(6) by (simp add: st1_def)
    qed
    show ?thesis
      unfolding step IH using lt False tne by (simp add: st1_def po)
  qed
qed

lemma main_scanner_sz_collect:
  assumes ne: "payloads \<noteq> []"
    and env: "list_all (envelope_of tp fn) payloads"
    and dist: "distinct (map (fst \<circ> part_of) payloads)"
    and nodraft: "fs (''DRAFT_'' @ fn) = None"
    and len: "length ticks = length payloads"
    and pace: "on_time start ticks"
    and le: "int (length payloads) \<le> tp"
  shows "main_scanner_sz cs fs start (deliver ticks payloads @ rest) =
    (if int (length payloads) = tp
     then Finished (reassemble
        \<lparr>chunks = map part_of payloads, total_parts = Some tp, output_filename = Some fn,
         last_part_found_time = snd (last ticks)\<rparr>)
     else main_loop cs fs
        \<lparr>chunks = map part_of payloads, total_parts = Some tp, output_filename = Some fn,
         last_part_found_time = snd (last ticks)\<rparr> rest)"
proof -
  from ne obtain payload rest_payloads where ps: "payloads = payload # rest_payloads"
    by (cases payloads) auto
  with len obtain now now' rest_ticks where ts: "ticks = (now, now') # rest_ticks"
    by (cases ticks) auto
  define st0 where "st0 = \<lparr>chunks = [], total_parts = None, output_filename = None,
    last_part_found_time = start\<rparr>"
  define st1 where "st1 = \<lparr>chunks = [part_of payload], total_parts = Some tp,
    output_filename = Some fn, last_part_found_time = now'\<rparr>"
  have e: "envelope_of tp fn payload" using env ps by simp
  have hp: "handle_payload cs fs now' st0 payload = st1"
    unfolding st0_def st1_def using e nodraft by (rule handle_payload_first)
  have nto: "\<not> scan_timed_out st0 now" by (simp add: scan_timed_out_def st0_def)
  have found: "all_parts_found st1 \<longleftrightarrow> 1 = tp"
    by (auto simp: all_parts_found_def st1_def)
  have step: "main_scanner_sz cs fs start (deliver ticks payloads @ rest) =
      (if 1 = tp then Finished (reassemble st1)
       else main_loop cs fs st1 (deliver rest_ticks rest_payloads @ rest))"
    unfolding main_scanner_sz_def st0_def[symmetric]
    using nto hp found by (simp add: ps ts deliver_Cons)
  show ?thesis
  proof (cases "rest_payloads = []")
    case True
    with len ps ts have "rest_ticks = []" by simp
    with True step show ?thesis by (simp add: ps ts deliver_Nil st1_def)
  next
    case False
    with len ps ts have tne: "rest_ticks \<noteq> []" by auto
    from False le ps have lt: "1 \<noteq> tp" by (cases rest_payloads) auto
    have keys: "list_all (\<lambda>payload. key_p payload \<noteq> None \<and> key_d payload \<noteq> None) rest_payloads"
      using env ps by (simp add: list_all_iff envelope_of_def)
    have collect: "main_loop cs fs st1 (deliver rest_ticks rest_payloads @ rest) =
      (if rest_payloads \<noteq> [] \<and> int (length (chunks st1)) + int (length rest_payloads) = tp
       then Finished (reassemble
          (st1\<lparr>chunks := chunks st1 @ map part_of rest_payloads,
              last_part_found_time := snd (last rest_ticks)\<rparr>))
       else main_loop cs fs
          (st1\<lparr>chunks := chunks st1 @ map part_of rest_payloads,
              last_part_found_time :=
                (if rest_ticks = [] then last_part_found_time st1 else snd (last rest_ticks))\<rparr>)
          rest)"
    proof (rule main_loop_collect)
      show "length rest_ticks = length rest_payloads" using len ps ts by simp
      show "total_parts st1 = Some tp" by (simp add: st1_def)
      show "list_all (\<lambda>payload. key_p payload \<noteq> None \<and> key_d payload \<noteq> None) rest_payloads"
        by (rule keys)
      show "distinct (map (fst \<circ> part_of) rest_payloads)" using dist ps by (simp add: comp_def)
      show "set (map (fst \<circ> part_of) rest_payloads) \<inter> fst ` set (chunks st1) = {}"
        using dist ps by (auto simp: st1_def comp_def)
      show "on_time (last_part_found_time st1) rest_ticks" using pace ts by (simp add: st1_def)
      show "int (length (chunks st1)) + int (length rest_payloads) \<le> tp"
        using le ps by (simp add: st1_def)
    qed
    show ?thesis
      unfolding step collect using lt False tne by (simp add: st1_def ps ts)
  qed
qed

lemma write_restored_encoded:
  assumes "\<forall>i \<in> set parts. map_of ch i = Some (b64encode (g i))"
  shows "write_restored ch parts f_out = (f_out @ concat (map g parts), None)"
  using assms
  by (induction parts arbitrary: f_out) (simp_all add: b64decode_b64encode)

lemma map_of_zip_upto:
  assumes "length ys = n" "1 \<le> i" "i \<le> int n"
  shows "map_of (zip [1..int n] ys) i = Some (ys ! nat (i - 1))"
proof -
  define k where "k = nat (i - 1)"
  have k: "k < n" and i: "i = 1 + int k" using assms by (simp_all add: k_def)
  have "map_of (zip [1..int n] ys) ([1..int n] ! k) = Some (ys ! k)"
    by (rule map_of_zip_nth) (use assms k in simp_all)
  moreover have "[1..int n] ! k = i" using k i by simp
  ultimately show ?thesis by (simp add: k_def)
qed

lemma map_nth_upto:
  "map (\<lambda>i. ys ! nat (i - 1)) [1..int (length ys)] = ys"
  by (rule nth_equalityI) simp_all

lemma part_of_generation_thread_sz:
  assumes "0 < cs"
  shows "map part_of (generation_thread_sz cs file name None) =
    zip [1..int (length (read_chunks cs file))] (map b64encode (read_chunks cs file))"
  by (simp add: generation_thread_sz_all[OF assms] part_of_def split_def zip_map2)

lemma write_restored_generation_thread_sz:
  assumes "0 < cs"
  shows "write_restored (map part_of (generation_thread_sz cs file name None))
     [1..int (ceil_div (length file) cs)] [] = (file, None)"
proof -
  let ?cks = "read_chunks cs file"
  let ?n = "length ?cks"
  have "write_restored (zip [1..int ?n] (map b64encode ?cks)) [1..int ?n] []
      = ([] @ concat (map (\<lambda>i. ?cks ! nat (i - 1)) [1..int ?n]), None)"
  proof (rule write_restored_encoded, rule ballI)
    fix i assume "i \<in> set [1..int ?n]"
    then have i: "1 \<le> i" "i \<le> int ?n" by simp_all
    then have "nat (i - 1) < ?n" by simp
    then show "map_of (zip [1..int ?n] (map b64encode ?cks)) i = Some (b64encode (?cks ! nat (i - 1)))"
      using map_of_zip_upto[of "map b64encode ?cks" ?n i] i by simp
  qed
  then have "write_restored (zip [1..int ?n] (map b64encode ?cks)) [1..int ?n] [] = (file, None)"
    by (simp only: map_nth_upto concat_read_chunks[OF assms] append_Nil)
  then show ?thesis
    by (simp only: part_of_generation_thread_sz[OF assms] length_read_chunks[OF assms])
qed

lemma ceil_div_pos: "0 < cs \<Longrightarrow> 0 < n \<Longrightarrow> 0 < ceil_div n cs"
  using ceil_div_bounds(1)[of cs n] by (cases "ceil_div n cs") simp_all

lemma envelope_of_generation_thread_sz:
  assumes "0 < cs"
  shows "list_all (envelope_of (int (ceil_div (length file) cs)) name)
    (generation_thread_sz cs file name None)"
  by (simp add: generation_thread_sz_all[OF assms] list_all_iff envelope_of_def split_def)

lemma parts_generation_thread_sz:
  assumes "0 < cs"
  shows "map (fst \<circ> part_of) (generation_thread_sz cs file name None) =
    [1..int (ceil_div (length file) cs)]"
proof -
  have "map (fst \<circ> part_of) (generation_thread_sz cs file name None) =
      map fst (map part_of (generation_thread_sz cs file name None))"
    by simp
  also have "\<dots> = [1..int (length (read_chunks cs file))]"
    unfolding part_of_generation_thread_sz[OF assms] by (rule map_fst_zip) simp
  finally show ?thesis by (simp only: length_read_chunks[OF assms])
qed

lemma reassemble_restored:
  assumes "write_restored ch [1..tp] [] = (file, None)"
  shows "reassemble \<lparr>chunks = ch, total_parts = Some tp, output_filename = Some fn,
      last_part_found_time = tm\<rparr> = Restored (''RESTORED_'' @ fn) file"
  using assms by (simp add: reassemble_def restored_filename_def)
























lemma read_chunks_unfold:
  "read_chunks cs f_in =
    (if take cs f_in = [] then [] else take cs f_in # read_chunks cs (drop cs f_in))"
  by (subst read_chunks.simps) (simp add: Let_def)

lemma load_draft_strides:
  assumes "distinct parts" "set parts \<inter> fst ` set ch = {}"
  shows "load_draft cs f_in parts ch =
    ch @ map (\<lambda>(i, chunk). (i, b64encode chunk))
           (filter (\<lambda>(i, chunk). chunk \<noteq> replicate (length chunk) 0)
              (zip parts (read_chunks cs f_in)))"
  using assms
proof (induction parts arbitrary: f_in ch)
  case Nil
  then show ?case by simp
next
  case (Cons i rest)
  show ?case
  proof (cases "take cs f_in = []")
    case True
    then have "read_chunks cs f_in = []" by (subst read_chunks_unfold) simp
    with True show ?thesis by (simp add: Let_def)
  next
    case False
    define chunk where "chunk = take cs f_in"
    define ch' where "ch' =
      (if chunk \<noteq> replicate cs 0 \<and> chunk \<noteq> replicate (length chunk) 0
       then (if i \<notin> fst ` set ch then AList.update i (b64encode chunk) ch else ch)
       else ch)"
    have rc: "read_chunks cs f_in = chunk # read_chunks cs (drop cs f_in)"
      using False by (subst read_chunks_unfold) (simp add: chunk_def)
    have eq: "load_draft cs f_in (i # rest) ch = load_draft cs (drop cs f_in) rest ch'"
      using False by (simp add: Let_def ch'_def chunk_def)
    have new: "i \<notin> fst ` set ch" using Cons.prems(2) by auto
    have zero: "chunk = replicate (length chunk) 0" if "chunk = replicate cs 0"
      using that by (metis length_replicate)
    have ch': "ch' = ch @ (if chunk \<noteq> replicate (length chunk) 0 then [(i, b64encode chunk)] else [])"
      using new zero by (auto simp: ch'_def update_new)
    have keys: "set rest \<inter> fst ` set ch' = {}"
      using Cons.prems by (auto simp: ch')
    have "load_draft cs (drop cs f_in) rest ch' =
      ch' @ map (\<lambda>(i, chunk). (i, b64encode chunk))
           (filter (\<lambda>(i, chunk). chunk \<noteq> replicate (length chunk) 0)
              (zip rest (read_chunks cs (drop cs f_in))))"
      using Cons.prems(1) keys by (intro Cons.IH) simp_all
    then show ?thesis unfolding eq rc by (simp add: ch')
  qed
qed

lemma handle_payload_draft:
  assumes "envelope_of tp fn payload" "part_of payload = (part_num, base64_data)"
    "fs (''DRAFT_'' @ fn) = Some f_in" "k \<noteq> part_num"
  shows "map_of (chunks (handle_payload cs fs now (new_session start) payload)) k =
    map_of (load_draft cs f_in [1..tp] []) k"
proof -
  have "chunks (handle_payload cs fs now (new_session start) payload) =
      AList.update part_num base64_data (load_draft cs f_in [1..tp] [])"
    using assms(1-3)
    by (auto simp: handle_payload_def new_session_def envelope_of_def part_of_def)
  then show ?thesis using assms(4) by (simp add: update_conv')
qed

lemma read_chunks_nonempty: "\<forall>chunk \<in> set (read_chunks cs f_in). chunk \<noteq> []"
proof (induction cs f_in rule: read_chunks.induct)
  case (1 cs f)
  show ?case
  proof (cases "take cs f = []")
    case True
    then have "read_chunks cs f = []" by (subst read_chunks_unfold) simp
    then show ?thesis by simp
  next
    case False
    then have "read_chunks cs f = take cs f # read_chunks cs (drop cs f)"
      by (subst read_chunks_unfold) simp
    with False "1.IH" show ?thesis by simp
  qed
qed

lemma load_draft_short_tail:
  fixes tail :: bytes
  assumes "tail \<noteq> []" "length tail \<le> CHUNK_SIZE_BYTES" "tail \<noteq> replicate (length tail) 0"
    "tail \<noteq> replicate CHUNK_SIZE_BYTES 0"
  shows "load_draft CHUNK_SIZE_BYTES (replicate CHUNK_SIZE_BYTES 0 @ tail) [1, 2] [] =
    [(2, b64encode tail)]"
proof -
  have pos: "replicate CHUNK_SIZE_BYTES (0::byte) \<noteq> []" by (simp add: CHUNK_SIZE_BYTES_def)
  show ?thesis using assms pos by (simp add: Let_def)
qed

lemma short_tail_restored:
  fixes tail first :: bytes
  assumes "tail \<noteq> []" "length tail \<le> CHUNK_SIZE_BYTES" "tail \<noteq> replicate (length tail) 0"
    "tail \<noteq> replicate CHUNK_SIZE_BYTES 0"
  shows "main_scanner
     (\<lambda>name. if name = ''DRAFT_a'' then Some (replicate CHUNK_SIZE_BYTES 0 @ tail) else None) 0
     (deliver [(0, 0)]
        [\<lparr>key_p = Some 1, key_t = Some 2, key_f = Some ''a'', key_d = Some (b64encode first)\<rparr>])
     = Finished (Restored ''RESTORED_a'' (first @ tail))"
proof -
  have u: "[1..2::int] = [1, 2]" by (simp add: upto_rec1)
  note ld = load_draft_short_tail[OF assms]
  show ?thesis
    by (simp add: main_scanner_def main_scanner_sz_def deliver_Cons deliver_Nil scan_timed_out_def
        handle_payload_def ld all_parts_found_def reassemble_def restored_filename_def
        b64decode_b64encode u del: load_draft.simps b64encode.simps)
qed







section \<open>The claims\<close>

text \<open>
  C8. For every file and every positive chunk size the sender announces
  \<open>\<lceil>file_size / chunk_size\<rceil>\<close> as the total number of parts and sends exactly that many
  payloads, numbered from 1; each payload decodes to \<open>chunk_size\<close> bytes, except the last,
  which decodes to \<open>file_size mod chunk_size\<close> bytes, or to \<open>chunk_size\<close> bytes when the
  chunk size divides the file size. The witness is the scenario of a file of 10000 bytes
  with the chunk size 2048 of the program: 5 parts, the last of 1808 bytes.
\<close>

theorem total_parts_and_payload_lengths:
  assumes "0 < chunk_size"
  shows "let envs = generation_thread_sz chunk_size file name None;
             n = ceil_div (length file) chunk_size
         in length envs = n \<and> int n = \<lceil>real (length file) / real chunk_size\<rceil> \<and>
            (\<forall>i < n. key_p (envs ! i) = Some (int i + 1) \<and> key_t (envs ! i) = Some (int n) \<and>
               (\<exists>payload. map_option b64decode (key_d (envs ! i)) = Some (Inr payload) \<and>
                  length payload =
                    (if Suc i < n then chunk_size
                     else if length file mod chunk_size = 0 then chunk_size
                     else length file mod chunk_size)))"
proof -
  have "\<exists>payload. map_option b64decode (key_d (generation_thread_sz chunk_size file name None ! i))
            = Some (Inr payload) \<and>
          length payload =
            (if Suc i < ceil_div (length file) chunk_size then chunk_size
             else if length file mod chunk_size = 0 then chunk_size
             else length file mod chunk_size)"
    if "i < ceil_div (length file) chunk_size" for i
    using that assms
    by (simp add: nth_generation_thread_sz b64decode_b64encode length_nth_read_chunks)
  then show ?thesis
    using assms
    by (simp add: Let_def length_generation_thread_sz ceil_div_real nth_generation_thread_sz)
qed

theorem total_parts_and_payload_lengths_witness:
  "0 < CHUNK_SIZE_BYTES \<and>
   length (generation_thread (replicate 10000 0) ''report.pdf'' None) = 5 \<and>
   key_t (generation_thread (replicate 10000 0) ''report.pdf'' None ! 4) = Some 5 \<and>
   (\<exists>payload. map_option b64decode
        (key_d (generation_thread (replicate 10000 0) ''report.pdf'' None ! 4)) = Some (Inr payload) \<and>
      length payload = 1808)"
proof -
  have h: "0 < CHUNK_SIZE_BYTES" by (simp add: CHUNK_SIZE_BYTES_def)
  have n: "ceil_div (length (replicate 10000 (0::byte))) CHUNK_SIZE_BYTES = 5"
    by (simp add: ceil_div_def CHUNK_SIZE_BYTES_def)
  have m: "(10000::nat) mod 2048 = 1808" by simp
  let ?envs = "generation_thread (replicate 10000 0) ''report.pdf'' None"
  from total_parts_and_payload_lengths[OF h, of "replicate 10000 0" "''report.pdf''"]
  have len: "length ?envs = 5"
    and each: "\<forall>i < 5. key_p (?envs ! i) = Some (int i + 1) \<and> key_t (?envs ! i) = Some 5 \<and>
       (\<exists>payload. map_option b64decode (key_d (?envs ! i)) = Some (Inr payload) \<and>
          length payload =
            (if Suc i < 5 then CHUNK_SIZE_BYTES
             else if length (replicate 10000 (0::byte)) mod CHUNK_SIZE_BYTES = 0
             then CHUNK_SIZE_BYTES
             else length (replicate 10000 (0::byte)) mod CHUNK_SIZE_BYTES))"
    unfolding Let_def n generation_thread_def[symmetric] by simp_all
  from each[rule_format, of 4]
  have "key_t (?envs ! 4) = Some 5 \<and>
     (\<exists>payload. map_option b64decode (key_d (?envs ! 4)) = Some (Inr payload) \<and>
        length payload = 1808)"
    by (simp add: CHUNK_SIZE_BYTES_def)
  with h len show ?thesis by simp
qed

text \<open>
  C10. An envelope whose part number is already a key of \<^verbatim>\<open>chunks\<close> changes nothing: the
  stored payload stays, also when the new payload differs, and the time of the last new
  part stays. Hence a stream of such envelopes leaves the timeout test as it was: the
  scan times out at the first pass whose clock reading is more than the timeout after the
  unchanged time of the last new part.
\<close>

theorem duplicate_part_ignored:
  "(key_p payload = Some part_num \<and> map_of (chunks st) part_num = Some stored \<longrightarrow>
      handle_payload cs fs now st payload = st \<and>
      process_result cs fs now st (Dict payload) = Inr st) \<and>
   (length ticks = length payloads \<and> list_all (already_seen st) payloads \<and>
    \<not> all_parts_found st \<longrightarrow>
      main_loop cs fs st (deliver ticks payloads @ rest) =
        (if \<exists>(now, now') \<in> set ticks. scan_timed_out st now then save cs st
         else main_loop cs fs st rest))"
proof -
  have "already_seen st payload"
    if "key_p payload = Some part_num" "map_of (chunks st) part_num = Some stored"
    using that by (auto simp: already_seen_def dest: map_of_SomeD intro: rev_image_eqI)
  then show ?thesis
    using main_loop_seen[of ticks payloads st cs fs rest]
    by (simp add: handle_payload_seen)
qed

theorem duplicate_part_ignored_witness:
  "key_p \<lparr>key_p = Some 1, key_t = Some 2, key_f = Some ''a'', key_d = Some ''Qg==''\<rparr> = Some 1 \<and>
   map_of (chunks \<lparr>chunks = [(1, ''QQ=='')], total_parts = Some 2, output_filename = Some ''a'',
             last_part_found_time = 0\<rparr>) 1 = Some ''QQ=='' \<and>
   handle_payload CHUNK_SIZE_BYTES (\<lambda>name. None) 4
     \<lparr>chunks = [(1, ''QQ=='')], total_parts = Some 2, output_filename = Some ''a'',
      last_part_found_time = 0\<rparr>
     \<lparr>key_p = Some 1, key_t = Some 2, key_f = Some ''a'', key_d = Some ''Qg==''\<rparr>
     = \<lparr>chunks = [(1, ''QQ=='')], total_parts = Some 2, output_filename = Some ''a'',
        last_part_found_time = 0\<rparr> \<and>
   main_loop CHUNK_SIZE_BYTES (\<lambda>name. None)
     \<lparr>chunks = [(1, ''QQ=='')], total_parts = Some 2, output_filename = Some ''a'',
      last_part_found_time = 0\<rparr>
     (deliver [(4, 4), (6, 6)]
        [\<lparr>key_p = Some 1, key_t = Some 2, key_f = Some ''a'', key_d = Some ''Qg==''\<rparr>,
         \<lparr>key_p = Some 1, key_t = Some 2, key_f = Some ''a'', key_d = Some ''Qg==''\<rparr>] @ [])
     = save CHUNK_SIZE_BYTES
         \<lparr>chunks = [(1, ''QQ=='')], total_parts = Some 2, output_filename = Some ''a'',
          last_part_found_time = 0\<rparr>"
  using duplicate_part_ignored[of
      "\<lparr>key_p = Some 1, key_t = Some 2, key_f = Some ''a'', key_d = Some ''Qg==''\<rparr>" 1
      "\<lparr>chunks = [(1, ''QQ=='')], total_parts = Some 2, output_filename = Some ''a'',
        last_part_found_time = 0\<rparr>" "''QQ==''" CHUNK_SIZE_BYTES "\<lambda>name. None" 4
      "[(4, 4), (6, 6)]"
      "[\<lparr>key_p = Some 1, key_t = Some 2, key_f = Some ''a'', key_d = Some ''Qg==''\<rparr>,
        \<lparr>key_p = Some 1, key_t = Some 2, key_f = Some ''a'', key_d = Some ''Qg==''\<rparr>]" "[]"]
  by (simp add: already_seen_def all_parts_found_def scan_timed_out_def SCAN_TIMEOUT_SECONDS_def)

text \<open>
  C2. The timeout test succeeds exactly when the total is known, fewer parts than the
  total are stored and more than \<^const>\<open>SCAN_TIMEOUT_SECONDS\<close> have passed since the last
  new part; it fails when the number of stored parts equals the total. The test comes
  first in each pass: when it succeeds the draft is saved and the item waiting in the
  queue is not looked at; when it fails the pass goes on with the queue.
\<close>

theorem stall_rule:
  "(scan_timed_out st now \<longleftrightarrow>
      (\<exists>tp. total_parts st = Some tp \<and> int (length (chunks st)) < tp \<and>
            now - last_part_found_time st > SCAN_TIMEOUT_SECONDS)) \<and>
   (total_parts st = Some tp \<and> int (length (chunks st)) = tp \<longrightarrow> \<not> scan_timed_out st now) \<and>
   (scan_timed_out st now \<longrightarrow>
      main_loop cs fs st (QueueItem now item now' # rest) = save cs st \<and>
      main_loop cs fs st (QueueEmpty now # rest) = save cs st) \<and>
   (\<not> scan_timed_out st now \<longrightarrow>
      main_loop cs fs st (QueueEmpty now # rest) = main_loop cs fs st rest \<and>
      main_loop cs fs st (QueueItem now item now' # rest) =
        (case process_result cs fs now' st item of
           Inl e \<Rightarrow> Finished (Crashed e)
         | Inr st' \<Rightarrow>
             if all_parts_found st' then Finished (reassemble st')
             else main_loop cs fs st' rest))"
  by (auto simp: scan_timed_out_def split: option.splits)

theorem stall_rule_witness:
  "scan_timed_out \<lparr>chunks = [(1, ''QQ=='')], total_parts = Some 2, output_filename = Some ''a'',
      last_part_found_time = 10\<rparr> 16 \<and>
   main_loop CHUNK_SIZE_BYTES (\<lambda>name. None)
     \<lparr>chunks = [(1, ''QQ=='')], total_parts = Some 2, output_filename = Some ''a'',
      last_part_found_time = 10\<rparr>
     (QueueItem 16 (Dict \<lparr>key_p = Some 2, key_t = Some 2, key_f = Some ''a'', key_d = Some ''Qg==''\<rparr>) 16 # [])
     = save CHUNK_SIZE_BYTES
         \<lparr>chunks = [(1, ''QQ=='')], total_parts = Some 2, output_filename = Some ''a'',
          last_part_found_time = 10\<rparr> \<and>
   \<not> scan_timed_out \<lparr>chunks = [(1, ''QQ=='')], total_parts = Some 1, output_filename = Some ''a'',
      last_part_found_time = 10\<rparr> 16 \<and>
   main_loop CHUNK_SIZE_BYTES (\<lambda>name. None)
     \<lparr>chunks = [(1, ''QQ=='')], total_parts = Some 1, output_filename = Some ''a'',
      last_part_found_time = 10\<rparr> (QueueEmpty 16 # [])
     = Running \<lparr>chunks = [(1, ''QQ=='')], total_parts = Some 1, output_filename = Some ''a'',
      last_part_found_time = 10\<rparr>"
  using stall_rule[of
      "\<lparr>chunks = [(1, ''QQ=='')], total_parts = Some 2, output_filename = Some ''a'',
        last_part_found_time = 10\<rparr>" 16 2 CHUNK_SIZE_BYTES "\<lambda>name. None"
      "Dict \<lparr>key_p = Some 2, key_t = Some 2, key_f = Some ''a'', key_d = Some ''Qg==''\<rparr>" 16 "[]"]
    stall_rule[of
      "\<lparr>chunks = [(1, ''QQ=='')], total_parts = Some 1, output_filename = Some ''a'',
        last_part_found_time = 10\<rparr>" 16 1 CHUNK_SIZE_BYTES "\<lambda>name. None" NotJson 16 "[]"]
  by (simp add: SCAN_TIMEOUT_SECONDS_def)

text \<open>
  C4. An item that is not a well-formed envelope ought to leave the session as it is and
  the loop running. A JSON object with the keys \<^verbatim>\<open>p\<close>, \<^verbatim>\<open>d\<close> and \<^verbatim>\<open>t\<close> but without
  \<^verbatim>\<open>f\<close> is ignored only after \<^verbatim>\<open>total_parts\<close> has been assigned from it, and bytes that
  are not UTF-8 end the loop with an exception that nothing catches.
\<close>

theorem missing_file_name_binds_total_parts:
  "process_result CHUNK_SIZE_BYTES fs now
     \<lparr>chunks = [], total_parts = None, output_filename = None, last_part_found_time = start\<rparr>
     (Dict \<lparr>key_p = Some 1, key_t = Some 3, key_f = None, key_d = Some ''QQ==''\<rparr>)
   = Inr \<lparr>chunks = [], total_parts = Some 3, output_filename = None,
          last_part_found_time = start\<rparr> \<and>
   main_scanner fs start (QueueItem now NotUtf8 now' # rest) = Finished (Crashed UnicodeDecodeError)"
  by (simp add: handle_payload_def main_scanner_def main_scanner_sz_def scan_timed_out_def)

text \<open>
  C5. After a timeout with some parts stored and others missing, a manifest and a draft
  ought to be written. When the total was bound by an object without the key \<^verbatim>\<open>f\<close>, the
  file name stays unbound for the whole session, and the parts stored since are dropped
  with the message that no parts were received.
\<close>

theorem parts_lost_after_missing_file_name:
  "main_scanner fs 0
     [QueueItem 0 (Dict \<lparr>key_p = Some 1, key_t = Some 3, key_f = None, key_d = Some ''QQ==''\<rparr>) 0,
      QueueItem 1 (Dict \<lparr>key_p = Some 2, key_t = Some 3, key_f = Some ''a.bin'',
                         key_d = Some ''Qg==''\<rparr>) 1]
   = Running \<lparr>chunks = [(2, ''Qg=='')], total_parts = Some 3, output_filename = None,
               last_part_found_time = 1\<rparr> \<and>
   main_scanner fs 0
     [QueueItem 0 (Dict \<lparr>key_p = Some 1, key_t = Some 3, key_f = None, key_d = Some ''QQ==''\<rparr>) 0,
      QueueItem 1 (Dict \<lparr>key_p = Some 2, key_t = Some 3, key_f = Some ''a.bin'',
                         key_d = Some ''Qg==''\<rparr>) 1,
      QueueEmpty 7]
   = Finished (Saved NoPartsReceived)"
  by (simp add: handle_payload_def main_scanner_def main_scanner_sz_def scan_timed_out_def
      all_parts_found_def save_def save_draft_and_exit_def SCAN_TIMEOUT_SECONDS_def)

text \<open>
  C9. Started with the \<^verbatim>\<open>missing\<close> list \<open>M\<close> of a manifest, the sender sends exactly the
  payloads of a full broadcast whose part number is in \<open>M\<close>, in order, and nothing for any
  other part. For \<open>M\<close> the missing parts of a session over the same file, the part
  numbers sent and the keys already stored cover \<open>1, \<dots>, total\<close>, and are exactly this
  range when the stored keys lie within it.
\<close>

theorem remediation_closure:
  "0 < cs \<longrightarrow>
   sender_main_sz cs file name (Some M) =
     filter (\<lambda>payload. \<exists>part_number \<in> set M. key_p payload = Some part_number)
       (sender_main_sz cs file name None) \<and>
   map key_p (sender_main_sz cs file name (Some M)) =
     map Some (filter (\<lambda>part_number. part_number \<in> set M) [1..int (ceil_div (length file) cs)]) \<and>
   (tp = int (ceil_div (length file) cs) \<and> M = missing_parts ch tp \<longrightarrow>
      {1..tp} \<subseteq> (fst \<circ> part_of) ` set (sender_main_sz cs file name (Some M)) \<union> fst ` set ch \<and>
      (fst ` set ch \<subseteq> {1..tp} \<longrightarrow>
         (fst \<circ> part_of) ` set (sender_main_sz cs file name (Some M)) \<union> fst ` set ch = {1..tp}))"
proof (intro impI)
  assume cs: "0 < cs"
  let ?all = "generation_thread_sz cs file name None"
  let ?sel = "\<lambda>payload. \<exists>part_number \<in> set M. key_p payload = Some part_number"
  have main: "sender_main_sz cs file name (Some M) = filter ?sel ?all"
  proof (cases "set M = {}")
    case True
    then show ?thesis by (simp add: sender_main_sz_def)
  next
    case False
    then show ?thesis
      by (simp add: sender_main_sz_def Let_def generation_thread_sz_selected[OF cs])
  qed
  have none: "sender_main_sz cs file name None = ?all"
    by (simp add: sender_main_sz_def)
  have keys: "map key_p (filter ?sel ?all) =
     map Some (filter (\<lambda>part_number. part_number \<in> set M) [1..int (ceil_div (length file) cs)])"
  proof -
    have "map key_p (filter ?sel ?all) = filter (\<lambda>k. \<exists>part_number \<in> set M. k = Some part_number) (map key_p ?all)"
      by (simp add: filter_map comp_def)
    also have "\<dots> = map Some (filter (\<lambda>part_number. part_number \<in> set M) [1..int (ceil_div (length file) cs)])"
      by (simp add: key_p_generation_thread_sz[OF cs] filter_map comp_def)
    finally show ?thesis .
  qed
  have sent: "(fst \<circ> part_of) ` set (filter ?sel ?all) = set M \<inter> {1..int (ceil_div (length file) cs)}"
  proof -
    have "(fst \<circ> part_of) ` set (filter ?sel ?all) = the ` set (map key_p (filter ?sel ?all))"
      by (simp add: part_of_def image_image)
    also have "\<dots> = set M \<inter> {1..int (ceil_div (length file) cs)}"
      unfolding keys by (auto simp: image_image)
    finally show ?thesis .
  qed
  show "sender_main_sz cs file name (Some M) =
     filter ?sel (sender_main_sz cs file name None) \<and>
   map key_p (sender_main_sz cs file name (Some M)) =
     map Some (filter (\<lambda>part_number. part_number \<in> set M) [1..int (ceil_div (length file) cs)]) \<and>
   (tp = int (ceil_div (length file) cs) \<and> M = missing_parts ch tp \<longrightarrow>
      {1..tp} \<subseteq> (fst \<circ> part_of) ` set (sender_main_sz cs file name (Some M)) \<union> fst ` set ch \<and>
      (fst ` set ch \<subseteq> {1..tp} \<longrightarrow>
         (fst \<circ> part_of) ` set (sender_main_sz cs file name (Some M)) \<union> fst ` set ch = {1..tp}))"
    unfolding main none keys sent
    by (auto simp: set_missing_parts)
qed

theorem remediation_closure_witness:
  "0 < CHUNK_SIZE_BYTES \<and>
   3 = int (ceil_div (length (replicate 5000 (7::byte))) CHUNK_SIZE_BYTES) \<and>
   fst ` set [(2, ''Qg=='')] \<subseteq> {1..3::int} \<and>
   (fst \<circ> part_of) ` set (sender_main (replicate 5000 7) ''a.bin''
        (Some (missing_parts [(2, ''Qg=='')] 3))) \<union> fst ` set [(2, ''Qg=='')] = {1..3}"
proof -
  have h: "0 < CHUNK_SIZE_BYTES" by (simp add: CHUNK_SIZE_BYTES_def)
  have tp: "3 = int (ceil_div (length (replicate 5000 (7::byte))) CHUNK_SIZE_BYTES)"
    by (simp add: ceil_div_def CHUNK_SIZE_BYTES_def)
  have sub: "fst ` set [(2, ''Qg=='')] \<subseteq> {1..3::int}" by simp
  have "(fst \<circ> part_of) ` set (sender_main_sz CHUNK_SIZE_BYTES (replicate 5000 7) ''a.bin''
        (Some (missing_parts [(2, ''Qg=='')] 3))) \<union> fst ` set [(2, ''Qg=='')] = {1..3}"
    using remediation_closure[of CHUNK_SIZE_BYTES "replicate 5000 7" "''a.bin''"
      "missing_parts [(2, ''Qg=='')] 3" 3 "[(2, ''Qg=='')]"] h tp sub
    by blast
  with h tp sub show ?thesis unfolding sender_main_def by blast
qed

text \<open>
  C1. For every file and every positive chunk size, decoding the payloads that the
  sender produces for the parts \<open>1, \<dots>, total\<close> and writing them in this order gives back
  the bytes of the file. Fed to the receiver one by one, with no draft on disk and no
  pause longer than the timeout, the payloads of a non-empty file end the scan with the
  restored file equal to the original.
\<close>

theorem round_trip:
  "0 < cs \<longrightarrow>
   write_restored (map part_of (generation_thread_sz cs file name None))
     [1..int (ceil_div (length file) cs)] [] = (file, None) \<and>
   (file \<noteq> [] \<and> fs (''DRAFT_'' @ name) = None \<and>
    length ticks = ceil_div (length file) cs \<and> on_time start ticks \<longrightarrow>
      main_scanner_sz cs fs start (deliver ticks (generation_thread_sz cs file name None) @ rest)
        = Finished (Restored (''RESTORED_'' @ name) file))"
proof (intro impI conjI)
  assume cs: "0 < cs"
  show wr: "write_restored (map part_of (generation_thread_sz cs file name None))
     [1..int (ceil_div (length file) cs)] [] = (file, None)"
    by (rule write_restored_generation_thread_sz[OF cs])
  assume a: "file \<noteq> [] \<and> fs (''DRAFT_'' @ name) = None \<and>
    length ticks = ceil_div (length file) cs \<and> on_time start ticks"
  let ?envs = "generation_thread_sz cs file name None"
  let ?tp = "int (ceil_div (length file) cs)"
  have len: "length ?envs = ceil_div (length file) cs"
    by (rule length_generation_thread_sz[OF cs])
  have pos: "0 < ceil_div (length file) cs" using a cs by (simp add: ceil_div_pos)
  have "main_scanner_sz cs fs start (deliver ticks ?envs @ rest) =
    (if int (length ?envs) = ?tp
     then Finished (reassemble
        \<lparr>chunks = map part_of ?envs, total_parts = Some ?tp, output_filename = Some name,
         last_part_found_time = snd (last ticks)\<rparr>)
     else main_loop cs fs
        \<lparr>chunks = map part_of ?envs, total_parts = Some ?tp, output_filename = Some name,
         last_part_found_time = snd (last ticks)\<rparr> rest)"
  proof (rule main_scanner_sz_collect)
    show "?envs \<noteq> []" using len pos by auto
    show "list_all (envelope_of ?tp name) ?envs" by (rule envelope_of_generation_thread_sz[OF cs])
    show "distinct (map (fst \<circ> part_of) ?envs)" by (simp only: parts_generation_thread_sz[OF cs] distinct_upto)
    show "fs (''DRAFT_'' @ name) = None" using a by simp
    show "length ticks = length ?envs" using a len by simp
    show "on_time start ticks" using a by simp
    show "int (length ?envs) \<le> ?tp" using len by simp
  qed
  then show "main_scanner_sz cs fs start (deliver ticks ?envs @ rest)
        = Finished (Restored (''RESTORED_'' @ name) file)"
    using len reassemble_restored[OF wr] by simp
qed

theorem round_trip_witness:
  "0 < CHUNK_SIZE_BYTES \<and> replicate 5000 (7::byte) \<noteq> [] \<and>
   length [(0, 0), (1, 1), (2, 2::real)] = ceil_div (length (replicate 5000 (7::byte))) CHUNK_SIZE_BYTES \<and>
   on_time 0 [(0, 0), (1, 1), (2, 2)] \<and>
   main_scanner (\<lambda>name. None) 0
     (deliver [(0, 0), (1, 1), (2, 2)] (generation_thread (replicate 5000 7) ''a.bin'' None) @ [])
     = Finished (Restored ''RESTORED_a.bin'' (replicate 5000 7))"
  using round_trip[of CHUNK_SIZE_BYTES "replicate 5000 7" "''a.bin''" "\<lambda>name. None"
      "[(0, 0), (1, 1), (2, 2)]" 0 "[]"]
  by (simp add: main_scanner_def generation_thread_def ceil_div_def CHUNK_SIZE_BYTES_def
      SCAN_TIMEOUT_SECONDS_def)




text \<open>
  C7. Loading a draft (lines 238--253), as the code does it. The draft is read in strides
  of the chunk size, one stride for each part number from 1 to the total, until the draft
  ends. A stride of zero bytes only, the short last one included, stores nothing; every
  other stride is stored under its part number, as its base64 text. The last stride may be
  shorter than the chunk size, and it is taken whenever it is not empty and not all zero:
  its length is compared with nothing, and the envelopes do not carry the length of the
  last part. Once the first envelope has been handled, every part number other than the
  envelope's own has in the session what the loading gave it. In the counterexample the
  draft ends with three bytes where the last part of the session has one byte; they are
  loaded as part 2 and end up in the restored file.
\<close>

theorem draft_loading:
  "load_draft cs f_in [1..tp] [] =
     map (\<lambda>(i, chunk). (i, b64encode chunk))
       (filter (\<lambda>(i, chunk). chunk \<noteq> replicate (length chunk) 0)
          (zip [1..tp] (read_chunks cs f_in))) \<and>
   (0 < cs \<longrightarrow> length (read_chunks cs f_in) = ceil_div (length f_in) cs) \<and>
   (0 < cs \<and> j < length (read_chunks cs f_in) \<longrightarrow>
      read_chunks cs f_in ! j = take cs (drop (j * cs) f_in) \<and> read_chunks cs f_in ! j \<noteq> []) \<and>
   (envelope_of tp fn payload \<and> part_of payload = (part_num, base64_data) \<and>
    fs (''DRAFT_'' @ fn) = Some f_in \<and> k \<noteq> part_num \<longrightarrow>
      map_of (chunks (handle_payload cs fs now (new_session start) payload)) k =
        map_of (load_draft cs f_in [1..tp] []) k)"
proof (intro conjI impI)
  show "load_draft cs f_in [1..tp] [] =
     map (\<lambda>(i, chunk). (i, b64encode chunk))
       (filter (\<lambda>(i, chunk). chunk \<noteq> replicate (length chunk) 0)
          (zip [1..tp] (read_chunks cs f_in)))"
    using load_draft_strides[of "[1..tp]" "[]" cs f_in] by simp
next
  assume "0 < cs"
  then show "length (read_chunks cs f_in) = ceil_div (length f_in) cs"
    by (rule length_read_chunks)
next
  assume a: "0 < cs \<and> j < length (read_chunks cs f_in)"
  then show "read_chunks cs f_in ! j = take cs (drop (j * cs) f_in)"
    by (simp add: nth_read_chunks)
  from a read_chunks_nonempty[of cs f_in] show "read_chunks cs f_in ! j \<noteq> []" by simp
next
  assume "envelope_of tp fn payload \<and> part_of payload = (part_num, base64_data) \<and>
    fs (''DRAFT_'' @ fn) = Some f_in \<and> k \<noteq> part_num"
  then show "map_of (chunks (handle_payload cs fs now (new_session start) payload)) k =
        map_of (load_draft cs f_in [1..tp] []) k"
    using handle_payload_draft[of tp fn payload part_num base64_data fs f_in k cs now start]
    by simp
qed

theorem draft_loading_witness:
  "0 < (1::nat) \<and> 1 < length (read_chunks 1 [0, 66]) \<and>
   envelope_of 3 ''a'' \<lparr>key_p = Some 1, key_t = Some 3, key_f = Some ''a'', key_d = Some ''QQ==''\<rparr> \<and>
   part_of \<lparr>key_p = Some 1, key_t = Some 3, key_f = Some ''a'', key_d = Some ''QQ==''\<rparr> = (1, ''QQ=='') \<and>
   (2::int) \<noteq> 1 \<and>
   load_draft 1 [0, 66] [1..3] [] = [(2, ''Qg=='')] \<and>
   length (read_chunks 1 [0, 66]) = 2 \<and>
   read_chunks 1 [0, 66] ! 1 = [66] \<and>
   map_of (chunks (handle_payload 1 (\<lambda>name. if name = ''DRAFT_a'' then Some [0, 66] else None) 0
     (new_session 0) \<lparr>key_p = Some 1, key_t = Some 3, key_f = Some ''a'', key_d = Some ''QQ==''\<rparr>)) 2
     = Some ''Qg==''"
proof -
  let ?e1 = "\<lparr>key_p = Some 1, key_t = Some 3, key_f = Some ''a'', key_d = Some ''QQ==''\<rparr>"
  let ?fs = "\<lambda>name. if name = ''DRAFT_a'' then Some [0, 66 :: byte] else None"
  have rc: "read_chunks 1 [0, 66 :: byte] = [[0], [66]]"
    by (simp add: read_chunks_unfold)
  have u: "[1..3::int] = [1, 2, 3]" by (simp add: upto_rec1)
  have e: "envelope_of 3 ''a'' ?e1" by (simp add: envelope_of_def)
  have po: "part_of ?e1 = (1, ''QQ=='')" by (simp add: part_of_def)
  have d: "?fs (''DRAFT_'' @ ''a'') = Some [0, 66]" by simp
  have k: "(2::int) \<noteq> 1" by simp
  note w = draft_loading[of 1 "[0, 66]" 3 1 "''a''" ?e1 1 "''QQ==''" ?fs 2 0 0]
  from w have "load_draft 1 [0, 66] [1..3] [] =
      map (\<lambda>(i, chunk). (i, b64encode chunk))
        (filter (\<lambda>(i, chunk). chunk \<noteq> replicate (length chunk) 0)
          (zip [1..3] (read_chunks 1 [0, 66])))"
    by blast
  then have ld: "load_draft 1 [0, 66] [1..3] [] = [(2, ''Qg=='')]"
    unfolding rc u by (simp add: b64_char_def b64_alphabet_def)
  from w e po d k have "map_of (chunks (handle_payload 1 ?fs 0 (new_session 0) ?e1)) 2 =
      map_of (load_draft 1 [0, 66] [1..3] []) 2"
    by blast
  then have hp: "map_of (chunks (handle_payload 1 ?fs 0 (new_session 0) ?e1)) 2 = Some ''Qg==''"
    unfolding ld by simp
  have l: "0 < (1::nat) \<and> 1 < length (read_chunks 1 [0, 66 :: byte])" unfolding rc by simp
  with w have "read_chunks 1 [0, 66 :: byte] ! 1 = take 1 (drop (1 * 1) [0, 66])" by blast
  then have n: "read_chunks 1 [0, 66 :: byte] ! 1 = [66]" by simp
  have len: "length (read_chunks 1 [0, 66 :: byte]) = 2" unfolding rc by simp
  from e po ld hp n l len show ?thesis by (simp del: load_draft.simps)
qed

theorem draft_loading_counterexample:
  "load_draft CHUNK_SIZE_BYTES (replicate 2048 0 @ [1, 1, 1]) [1..2] [] = [(2, b64encode [1, 1, 1])] \<and>
   generation_thread (replicate 2049 1) ''a'' None ! 0 =
     \<lparr>key_p = Some 1, key_t = Some 2, key_f = Some ''a'',
      key_d = Some (b64encode (replicate 2048 1))\<rparr> \<and>
   generation_thread (replicate 2049 1) ''a'' None ! 1 =
     \<lparr>key_p = Some 2, key_t = Some 2, key_f = Some ''a'', key_d = Some (b64encode [1])\<rparr> \<and>
   main_scanner (\<lambda>name. if name = ''DRAFT_a'' then Some (replicate 2048 0 @ [1, 1, 1]) else None) 0
     (deliver [(0, 0)] [generation_thread (replicate 2049 1) ''a'' None ! 0])
     = Finished (Restored ''RESTORED_a'' (replicate 2048 1 @ [1, 1, 1]))"
proof -
  have u: "[1..2::int] = [1, 2]" by (simp add: upto_rec1)
  have "length [1, 1, 1 :: byte] \<noteq> length (replicate CHUNK_SIZE_BYTES (0 :: byte))"
    by (simp add: CHUNK_SIZE_BYTES_def)
  then have t4: "[1, 1, 1 :: byte] \<noteq> replicate CHUNK_SIZE_BYTES 0" by force
  have t: "[1, 1, 1 :: byte] \<noteq> []" "length [1, 1, 1 :: byte] \<le> CHUNK_SIZE_BYTES"
    "[1, 1, 1 :: byte] \<noteq> replicate (length [1, 1, 1 :: byte]) 0"
    "[1, 1, 1 :: byte] \<noteq> replicate CHUNK_SIZE_BYTES 0"
    using t4 by (simp_all add: CHUNK_SIZE_BYTES_def)
  have cd: "ceil_div 2049 2048 = 2" by (simp add: ceil_div_def)
  have len: "length (read_chunks 2048 (replicate 2049 (1::byte))) = 2"
    using length_read_chunks[of 2048 "replicate 2049 (1::byte)"] by (simp add: cd)
  have r0: "read_chunks 2048 (replicate 2049 (1::byte)) ! 0 = replicate 2048 1"
    using nth_read_chunks[of 2048 0 "replicate 2049 (1::byte)"] by (simp add: len)
  have r1: "read_chunks 2048 (replicate 2049 (1::byte)) ! Suc 0 = [1]"
    using nth_read_chunks[of 2048 1 "replicate 2049 (1::byte)"] by (simp add: len)
  have e0: "generation_thread (replicate 2049 1) ''a'' None ! 0 =
     \<lparr>key_p = Some 1, key_t = Some 2, key_f = Some ''a'',
      key_d = Some (b64encode (replicate 2048 1))\<rparr>"
    using nth_generation_thread_sz[of 2048 0 "replicate 2049 1" "''a''"]
    by (simp add: generation_thread_def CHUNK_SIZE_BYTES_def cd r0 del: b64encode.simps)
  have e1: "generation_thread (replicate 2049 1) ''a'' None ! 1 =
     \<lparr>key_p = Some 2, key_t = Some 2, key_f = Some ''a'', key_d = Some (b64encode [1])\<rparr>"
    using nth_generation_thread_sz[of 2048 1 "replicate 2049 1" "''a''"]
    by (simp add: generation_thread_def CHUNK_SIZE_BYTES_def cd r1 del: b64encode.simps)
  have l: "load_draft CHUNK_SIZE_BYTES (replicate 2048 0 @ [1, 1, 1]) [1..2] [] =
      [(2, b64encode [1, 1, 1])]"
    using load_draft_short_tail[OF t] unfolding u CHUNK_SIZE_BYTES_def .
  have m: "main_scanner (\<lambda>name. if name = ''DRAFT_a'' then Some (replicate 2048 0 @ [1, 1, 1]) else None) 0
     (deliver [(0, 0)]
        [\<lparr>key_p = Some 1, key_t = Some 2, key_f = Some ''a'',
          key_d = Some (b64encode (replicate 2048 1))\<rparr>])
     = Finished (Restored ''RESTORED_a'' (replicate 2048 1 @ [1, 1, 1]))"
    using short_tail_restored[OF t, of "replicate 2048 1"] unfolding CHUNK_SIZE_BYTES_def .
  from l e0 e1 m show ?thesis by (simp only: e0) 
qed




end
